theory Spec2Isabelle
  imports Main "HOL-Library.Word"
begin

unbundle bit_operations_syntax

section \<open>Sections and their byte streams\<close>

text \<open>
  The analysed module is \<^verbatim>\<open>pythia/core/windows.py\<close> (class \<^verbatim>\<open>PEHandler\<close>).
  Python integers are unbounded, so addresses, sizes and offsets are \<open>int\<close>; the
  32-bit fields read from a section are integers in \<open>0 ..< 2 ^ 32\<close>.
\<close>

type_synonym byte = "8 word"

text \<open>
  \<^verbatim>\<open>PESection\<close> (from \<^verbatim>\<open>helpers.py\<close>): the attributes that \<^verbatim>\<open>windows.py\<close> reads.
  The attribute \<^verbatim>\<open>size\<close> is called \<open>size_s\<close> here. The read cursor of
  \<^verbatim>\<open>stream_data\<close> is not a field: every read sequence of \<^verbatim>\<open>windows.py\<close> starts
  with an absolute \<^verbatim>\<open>seek\<close>, so the cursor is threaded locally where the code
  reads sequentially.
\<close>

record pesection =
  name :: string
  load_address :: int
  size_s :: int
  stream_data :: "byte list"

text \<open>
  Modelled from the spec: \<^verbatim>\<open>PESection.contains_va\<close>, \<^verbatim>\<open>offset_from_va\<close> and
  \<^verbatim>\<open>va_from_offset\<close> (\<^verbatim>\<open>helpers.py\<close> is not among the sources). The spec gives a
  half-open interval of virtual addresses and \<open>offset = va - load_address\<close>.
\<close>

definition contains_va :: "pesection \<Rightarrow> int \<Rightarrow> bool" where
  "contains_va s va = (load_address s \<le> va \<and> va < load_address s + size_s s)"

definition offset_from_va :: "pesection \<Rightarrow> int \<Rightarrow> int" where
  "offset_from_va s va = va - load_address s"

definition va_from_offset :: "pesection \<Rightarrow> int \<Rightarrow> int" where
  "va_from_offset s off = load_address s + off"

text \<open>
  Modelled from the spec: \<^verbatim>\<open>unpack_stream\<close> (\<^verbatim>\<open>utils.py\<close> is not among the
  sources) on the formats \<^verbatim>\<open>"I"\<close> and \<^verbatim>\<open>"III"\<close>: little-endian 32-bit fields
  read at a stream position; a read that reaches past the end of the stream
  fails (\<open>None\<close>, the exception \<open>StreamError\<close> below) instead of returning
  data.
\<close>

definition u32_le :: "byte list \<Rightarrow> int" where
  "u32_le bs = foldr (\<lambda>b acc. uint b + 256 * acc) bs 0"

definition unpack_I :: "byte list \<Rightarrow> int \<Rightarrow> int option" where
  "unpack_I d pos =
     (if 0 \<le> pos \<and> pos + 4 \<le> int (length d)
      then Some (u32_le (take 4 (drop (nat pos) d)))
      else None)"

definition unpack_III :: "byte list \<Rightarrow> int \<Rightarrow> (int \<times> int \<times> int) option" where
  "unpack_III d pos =
     (if 0 \<le> pos \<and> pos + 12 \<le> int (length d)
      then Some (u32_le (take 4 (drop (nat pos) d)),
                 u32_le (take 4 (drop (nat pos + 4) d)),
                 u32_le (take 4 (drop (nat pos + 8) d)))
      else None)"

text \<open>The exceptions that can leave the modelled functions.\<close>

datatype exn =
    StreamError                  \<comment> \<open>a read past the end of a byte stream\<close>
  | ObjectsInMoreThanOneSection  \<comment> \<open>\<^verbatim>\<open>raise Exception("Objects in more than one section")\<close>\<close>
  | NoneAttribute                \<comment> \<open>an attribute of \<^verbatim>\<open>None\<close> is used\<close>
  | CollaboratorError            \<comment> \<open>any exception but \<^verbatim>\<open>ValidationError\<close> from code outside this file\<close>

section \<open>\<^verbatim>\<open>_find_tobject\<close>\<close>

text \<open>
  The body of the \<^verbatim>\<open>while\<close> loop of \<^verbatim>\<open>_find_tobject\<close> at position \<open>j\<close>:
  \<open>Inr None\<close> is \<^verbatim>\<open>continue\<close> (or falling out of the last \<^verbatim>\<open>if\<close>),
  \<open>Inr (Some difference)\<close> is the \<^verbatim>\<open>break\<close> with \<^verbatim>\<open>confirmed_distance\<close> set.
\<close>

definition tobject_probe :: "pesection \<Rightarrow> int \<Rightarrow> exn + int option" where
  "tobject_probe code_section j =
     (case unpack_III (stream_data code_section) j of
        None \<Rightarrow> Inl StreamError
      | Some (ptr, check1, check2) \<Rightarrow>
          if check1 \<noteq> 0 \<or> check2 \<noteq> 0 then Inr None
          else if \<not> contains_va code_section ptr then Inr None
          else
            let offset = offset_from_va code_section ptr;
                difference = offset - j
            in
              if difference < 36 \<or> difference > 128 then Inr None
              else
                (case unpack_I (stream_data code_section) (j + 32) of
                   None \<Rightarrow> Inl StreamError
                 | Some name_ptr \<Rightarrow>
                     if \<not> contains_va code_section name_ptr then Inr None
                     else
                       (case unpack_I (stream_data code_section)
                               (offset_from_va code_section name_ptr) of
                          None \<Rightarrow> Inl StreamError
                        | Some name_v \<Rightarrow>
                            if name_v = 0x624F5407 then Inr (Some difference)
                            else Inr None)))"

text \<open>
  The loop \<^verbatim>\<open>while i < code_section.size - 128\<close> with \<^verbatim>\<open>j = i; i += 4\<close>. The
  result \<open>Some (j, confirmed_distance)\<close> is the state at the \<^verbatim>\<open>break\<close>.
\<close>

function tobject_loop :: "pesection \<Rightarrow> int \<Rightarrow> exn + (int \<times> int) option" where
  "tobject_loop code_section i =
     (if i < size_s code_section - 128 then
        (case tobject_probe code_section i of
           Inl e \<Rightarrow> Inl e
         | Inr (Some difference) \<Rightarrow> Inr (Some (i, difference))
         | Inr None \<Rightarrow> tobject_loop code_section (i + 4))
      else Inr None)"
  by pat_completeness auto
termination
  by (relation "measure (\<lambda>(s, i). nat (size_s s - 128 - i))") auto

declare tobject_loop.simps [simp del]

record tobject_result =
  va :: int
  vftable_length :: int

text \<open>
  \<^verbatim>\<open>if confirmed_distance:\<close> is Python truthiness: a distance of 0 would count
  as not found.
\<close>

definition find_tobject :: "pesection \<Rightarrow> exn + tobject_result option" where
  "find_tobject code_section =
     (case tobject_loop code_section 0 of
        Inl e \<Rightarrow> Inl e
      | Inr None \<Rightarrow> Inr None
      | Inr (Some (j, confirmed_distance)) \<Rightarrow>
          if confirmed_distance \<noteq> 0
          then Inr (Some \<lparr>va = va_from_offset code_section j,
                          vftable_length = confirmed_distance\<rparr>)
          else Inr None)"

section \<open>The work queue and the recovery context\<close>

text \<open>
  The object kinds that can be queued: \<^verbatim>\<open>Vftable\<close> is the only one that
  \<^verbatim>\<open>windows.py\<close> names; the others (\<^verbatim>\<open>objects.py\<close>) are numbered.
\<close>

datatype item_type = Vftable | OtherType nat

text \<open>A queued item is the dictionary \<^verbatim>\<open>{"location": va, "item_type": t}\<close>.\<close>

type_synonym work_item = "int \<times> item_type"

type_synonym work_queue = "work_item list"

text \<open>
  Modelled from the spec: \<^verbatim>\<open>WorkQueue.add_item\<close> and \<^verbatim>\<open>WorkQueue.get_item\<close>
  (the class is not among the sources). The spec gives an insertion-ordered
  queue without deduplication, and a dequeue that takes the oldest item, or
  the oldest item of the requested kind, and returns nothing when there is
  none.
\<close>

definition add_item :: "work_queue \<Rightarrow> int \<Rightarrow> item_type \<Rightarrow> work_queue" where
  "add_item q location t = q @ [(location, t)]"

fun get_item_of :: "item_type \<Rightarrow> work_queue \<Rightarrow> work_item option \<times> work_queue" where
  "get_item_of t [] = (None, [])"
| "get_item_of t (x # xs) =
     (if snd x = t then (Some x, xs)
      else (case get_item_of t xs of (r, xs') \<Rightarrow> (r, x # xs')))"

definition get_item :: "item_type option \<Rightarrow> work_queue \<Rightarrow> work_item option \<times> work_queue" where
  "get_item obj_type q =
     (case obj_type of
        None \<Rightarrow> (case q of [] \<Rightarrow> (None, []) | x # xs \<Rightarrow> (Some x, xs))
      | Some t \<Rightarrow> get_item_of t q)"

text \<open>
  The fields of the context that \<^verbatim>\<open>analyse\<close> reads or writes. The recovered
  objects \<open>'o\<close> and the version fact \<open>'v\<close> are built by code outside this
  file.
\<close>

record ('o, 'v) recovery_context =
  code_sections :: "pesection list"
  data_sections :: "pesection list"
  header_length :: "int option"
  object_section :: "pesection option"
  version :: "'v option"
  items :: "'o list"

section \<open>\<^verbatim>\<open>_find_vftables\<close>\<close>

text \<open>
  The inner loop \<^verbatim>\<open>j = 5; while j: ...; j -= 1\<close>: five sequential reads from
  the stream cursor \<open>pos\<close>, which each read advances by 4.
\<close>

fun check_headers :: "pesection \<Rightarrow> nat \<Rightarrow> int \<Rightarrow> bool \<Rightarrow> exn + bool" where
  "check_headers s 0 pos error = Inr error"
| "check_headers s (Suc j) pos error =
     (case unpack_I (stream_data s) pos of
        None \<Rightarrow> Inl StreamError
      | Some ptr \<Rightarrow>
          check_headers s j (pos + 4)
            (if ptr \<noteq> 0 \<and> \<not> contains_va s ptr then True else error))"

text \<open>
  The loop \<^verbatim>\<open>while i < section.size - context.header_length\<close>. The queue is
  shared and mutated in place, so it is returned also when a read raises.
\<close>

function vftables_loop ::
  "pesection \<Rightarrow> int \<Rightarrow> int \<Rightarrow> nat \<Rightarrow> work_queue \<Rightarrow> (exn + nat) \<times> work_queue" where
  "vftables_loop s hl i found q =
     (if i < size_s s - hl then
        (case unpack_I (stream_data s) i of
           None \<Rightarrow> (Inl StreamError, q)
         | Some ptr \<Rightarrow>
             let va = load_address s + i in
               if va + hl = ptr then
                 (case check_headers s 5 (i + 4) False of
                    Inl e \<Rightarrow> (Inl e, q)
                  | Inr error \<Rightarrow>
                      if \<not> error
                      then vftables_loop s hl (i + 4) (found + 1) (add_item q va Vftable)
                      else vftables_loop s hl (i + 4) found q)
               else vftables_loop s hl (i + 4) found q)
      else (Inr found, q))"
  by pat_completeness auto
termination
  by (relation "measure (\<lambda>(s, hl, i, found, q). nat (size_s s - hl - i))") auto

declare vftables_loop.simps [simp del]

definition find_vftables ::
  "('o, 'v) recovery_context \<Rightarrow> work_queue \<Rightarrow> (exn + nat) \<times> work_queue" where
  "find_vftables ctx q =
     (case object_section ctx of
        None \<Rightarrow> (Inl NoneAttribute, q)
      | Some s \<Rightarrow>
          (case header_length ctx of
             None \<Rightarrow> (Inl NoneAttribute, q)
           | Some hl \<Rightarrow> vftables_loop s hl 0 0 q))"

section \<open>\<^verbatim>\<open>analyse\<close>\<close>

text \<open>
  What \<^verbatim>\<open>PEHandler\<close> holds when \<^verbatim>\<open>analyse\<close> starts: the sections of
  \<^verbatim>\<open>self._pe.sections\<close>, each with its \<^verbatim>\<open>Characteristics\<close> and the
  \<^verbatim>\<open>PESection\<close> built from it; the result of
  \<^verbatim>\<open>UnitInitHelper.find_init_table\<close>; and the entry point that the PE header
  declares, which \<^verbatim>\<open>analyse\<close> never reads.
\<close>

record pe_image =
  pe_sections :: "(32 word \<times> pesection) list"
  table_pos :: "int option"
  entry_point :: int

definition IMAGE_SCN_CNT_CODE :: "32 word" where
  "IMAGE_SCN_CNT_CODE = 0x00000020"

definition IMAGE_SCN_CNT_INITIALIZED_DATA :: "32 word" where
  "IMAGE_SCN_CNT_INITIALIZED_DATA = 0x00000040"

definition find_sections :: "pe_image \<Rightarrow> 32 word \<Rightarrow> pesection list" where
  "find_sections pe flags =
     map snd (filter (\<lambda>(characteristics, s). flags \<noteq> 0 \<and> characteristics AND flags \<noteq> 0)
                     (pe_sections pe))"

definition find_code_sections :: "pe_image \<Rightarrow> pesection list" where
  "find_code_sections pe = find_sections pe IMAGE_SCN_CNT_CODE"

definition find_data_sections :: "pe_image \<Rightarrow> pesection list" where
  "find_data_sections pe = find_sections pe IMAGE_SCN_CNT_INITIALIZED_DATA"

text \<open>
  The code outside this file that \<^verbatim>\<open>analyse\<close> calls. An object constructor
  \<^verbatim>\<open>item["item_type"](code_section, location, context, work_queue=...)\<close>
  returns an object, raises \<^verbatim>\<open>ValidationError\<close> or raises something else, and
  may have added items to the shared queue in each case.
  \<^verbatim>\<open>UnitInitHelper.parse_init_table\<close> returns (its result is never used) or
  raises.
\<close>

datatype 'o construct_result = Built 'o | ValidationError | OtherException

record ('o, 'v) collaborators =
  construct :: "item_type \<Rightarrow> pesection \<Rightarrow> int \<Rightarrow> ('o, 'v) recovery_context \<Rightarrow> work_queue
                  \<Rightarrow> 'o construct_result \<times> work_queue"
  VersionHelper :: "('o, 'v) recovery_context \<Rightarrow> 'v"
  parse_init_table :: "pesection \<Rightarrow> int \<Rightarrow> ('o, 'v) recovery_context \<Rightarrow> exn option"

text \<open>
  The calls that \<^verbatim>\<open>analyse\<close> makes, in the order it makes them, are
  recorded as a trace. \<open>PassA\<close> is the loop of step 3
  (\<^verbatim>\<open>get_item(obj_type=Vftable)\<close>), \<open>PassB\<close> the loop of step 5
  (\<^verbatim>\<open>get_item()\<close>).
\<close>

datatype pass = PassA | PassB

fun pass_filter :: "pass \<Rightarrow> item_type option" where
  "pass_filter PassA = Some Vftable"
| "pass_filter PassB = None"

datatype 'o event =
    ParseInitTable pesection int
  | FindTObject pesection
  | FindVftables
  | GetItem "item_type option" "work_item option"
  | Construct pass item_type pesection int "'o construct_result"
  | InferVersion

type_synonym ('o, 'v) pass_result =
  "exn option \<times> ('o, 'v) recovery_context \<times> work_queue \<times> 'o event list"

definition after_events :: "'o event list \<Rightarrow> ('o, 'v) pass_result \<Rightarrow> ('o, 'v) pass_result" where
  "after_events evs r = (case r of (e, c, q, evs') \<Rightarrow> (e, c, q, evs @ evs'))"

text \<open>
  The two \<^verbatim>\<open>while item:\<close> loops of steps 3 and 5, which differ in the filter
  of \<^verbatim>\<open>get_item\<close> and in logging only. A constructor may enqueue new items,
  so the loop need not end: \<open>None\<close> is the run that does not return.
\<close>

partial_function (option) parse_pass ::
  "('o, 'v) collaborators \<Rightarrow> pesection \<Rightarrow> pass \<Rightarrow> ('o, 'v) recovery_context \<Rightarrow> work_queue
     \<Rightarrow> ('o, 'v) pass_result option" where
  "parse_pass env code_section p ctx q =
     (case get_item (pass_filter p) q of
        (None, q1) \<Rightarrow> Some (None, ctx, q1, [GetItem (pass_filter p) None])
      | (Some item, q1) \<Rightarrow>
          (case construct env (snd item) code_section (fst item) ctx q1 of
             (Built obj, q2) \<Rightarrow>
               Option.bind (parse_pass env code_section p (ctx\<lparr>items := items ctx @ [obj]\<rparr>) q2)
                 (\<lambda>r. Some (after_events
                    [GetItem (pass_filter p) (Some item),
                     Construct p (snd item) code_section (fst item) (Built obj)] r))
           | (ValidationError, q2) \<Rightarrow>
               Option.bind (parse_pass env code_section p ctx q2)
                 (\<lambda>r. Some (after_events
                    [GetItem (pass_filter p) (Some item),
                     Construct p (snd item) code_section (fst item) ValidationError] r))
           | (OtherException, q2) \<Rightarrow>
               Some (Some CollaboratorError, ctx, q2,
                     [GetItem (pass_filter p) (Some item),
                      Construct p (snd item) code_section (fst item) OtherException])))"

declare parse_pass.simps [code]

text \<open>
  Step 1: the loop \<^verbatim>\<open>for s in self.context.code_sections\<close> with the flag
  \<^verbatim>\<open>found\<close>.
\<close>

fun tobject_sections ::
  "pesection list \<Rightarrow> bool \<Rightarrow> ('o, 'v) recovery_context
     \<Rightarrow> exn option \<times> bool \<times> ('o, 'v) recovery_context \<times> 'o event list" where
  "tobject_sections [] found ctx = (None, found, ctx, [])"
| "tobject_sections (s # ss) found ctx =
     (case find_tobject s of
        Inl e \<Rightarrow> (Some e, found, ctx, [FindTObject s])
      | Inr None \<Rightarrow>
          (case tobject_sections ss found ctx of
             (e, f, c, evs) \<Rightarrow> (e, f, c, FindTObject s # evs))
      | Inr (Some result) \<Rightarrow>
          if found then (Some ObjectsInMoreThanOneSection, found, ctx, [FindTObject s])
          else
            (case tobject_sections ss True
                    (ctx\<lparr>header_length := Some (vftable_length result),
                         object_section := Some s\<rparr>) of
               (e, f, c, evs) \<Rightarrow> (e, f, c, FindTObject s # evs)))"

text \<open>
  How a call of \<^verbatim>\<open>analyse\<close> ends: it returns at the end, returns early at
  line 145 or at line 180, or an exception leaves it.
\<close>

datatype outcome = Completed | NoCodeSection | NoTObject | Raised exn

record ('o, 'v) run =
  outcome :: outcome
  final_context :: "('o, 'v) recovery_context"
  final_queue :: work_queue
  trace :: "'o event list"

text \<open>Steps 3 to 5: pass A, the version, pass B.\<close>

definition parsing_stages ::
  "('o, 'v) collaborators \<Rightarrow> pesection \<Rightarrow> ('o, 'v) recovery_context \<Rightarrow> work_queue
     \<Rightarrow> ('o, 'v) run option" where
  "parsing_stages env code_section ctx q =
     Option.bind (parse_pass env code_section PassA ctx q) (\<lambda>(ea, ctx_a, q_a, evs_a).
       case ea of
         Some e \<Rightarrow> Some \<lparr>outcome = Raised e, final_context = ctx_a, final_queue = q_a,
                          trace = evs_a\<rparr>
       | None \<Rightarrow>
           let ctx_v = ctx_a\<lparr>version := Some (VersionHelper env ctx_a)\<rparr> in
           Option.bind (parse_pass env code_section PassB ctx_v q_a) (\<lambda>(eb, ctx_b, q_b, evs_b).
             Some \<lparr>outcome = (case eb of None \<Rightarrow> Completed | Some e \<Rightarrow> Raised e),
                   final_context = ctx_b, final_queue = q_b,
                   trace = evs_a @ [InferVersion] @ evs_b\<rparr>))"

text \<open>\<^verbatim>\<open>if table_pos:\<close> at line 149, with Python truthiness.\<close>

definition init_table_stage ::
  "('o, 'v) collaborators \<Rightarrow> pesection \<Rightarrow> int option \<Rightarrow> ('o, 'v) recovery_context
     \<Rightarrow> exn option \<times> 'o event list" where
  "init_table_stage env code_section tp ctx =
     (case tp of
        None \<Rightarrow> (None, [])
      | Some pos \<Rightarrow>
          if pos \<noteq> 0
          then (parse_init_table env code_section pos ctx, [ParseInitTable code_section pos])
          else (None, []))"

text \<open>
  Steps 1 to 5, from line 160 on, with the code section chosen at lines 137
  to 141.
\<close>

definition object_stages ::
  "('o, 'v) collaborators \<Rightarrow> pesection \<Rightarrow> ('o, 'v) recovery_context \<Rightarrow> ('o, 'v) run option" where
  "object_stages env code_section ctx =
     (case tobject_sections (code_sections ctx) False ctx of
        (Some e, found, ctx2, evs1) \<Rightarrow>
          Some \<lparr>outcome = Raised e, final_context = ctx2, final_queue = [], trace = evs1\<rparr>
      | (None, found, ctx2, evs1) \<Rightarrow>
          if \<not> found
          then Some \<lparr>outcome = NoTObject, final_context = ctx2, final_queue = [], trace = evs1\<rparr>
          else
            (case find_vftables ctx2 [] of
               (Inl e, q) \<Rightarrow>
                 Some \<lparr>outcome = Raised e, final_context = ctx2, final_queue = q,
                       trace = evs1 @ [FindVftables]\<rparr>
             | (Inr vftables, q) \<Rightarrow>
                 map_option (\<lambda>r. r\<lparr>trace := evs1 @ [FindVftables] @ trace r\<rparr>)
                   (parsing_stages env code_section ctx2 q)))"

definition analyse ::
  "('o, 'v) collaborators \<Rightarrow> pe_image \<Rightarrow> ('o, 'v) recovery_context \<Rightarrow> ('o, 'v) run option" where
  "analyse env pe ctx0 =
     (let sections = find_code_sections pe;
          ctx1 = ctx0\<lparr>code_sections := sections, data_sections := find_data_sections pe\<rparr>
      in
        case find (\<lambda>s. contains_va s (load_address s)) sections of
          None \<Rightarrow>
            Some \<lparr>outcome = NoCodeSection, final_context = ctx1, final_queue = [], trace = []\<rparr>
        | Some code_section \<Rightarrow>
            (case init_table_stage env code_section (table_pos pe) ctx1 of
               (Some e, evs0) \<Rightarrow>
                 Some \<lparr>outcome = Raised e, final_context = ctx1, final_queue = [], trace = evs0\<rparr>
             | (None, evs0) \<Rightarrow>
                 map_option (\<lambda>r. r\<lparr>trace := evs0 @ trace r\<rparr>)
                   (object_stages env code_section ctx1)))"

section \<open>The claims' own words\<close>

text \<open>The 4-byte-aligned positions \<open>0, 4, 8, ...\<close> below \<open>bound\<close>, in scan order.\<close>

definition scan_offsets :: "int \<Rightarrow> int list" where
  "scan_offsets bound = map (\<lambda>k. 4 * int k) [0 ..< nat ((bound + 3) div 4)]"

text \<open>
  The acceptance conditions of the TObject locator at position \<open>j\<close> as the
  claim lists them; the value is \<open>difference\<close>. A field that cannot be read
  makes the position fail.
\<close>

definition tobject_at :: "pesection \<Rightarrow> int \<Rightarrow> int option" where
  "tobject_at s j =
     (case unpack_III (stream_data s) j of
        None \<Rightarrow> None
      | Some (ptr, check1, check2) \<Rightarrow>
          (case unpack_I (stream_data s) (j + 32) of
             None \<Rightarrow> None
           | Some name_ptr \<Rightarrow>
               if check1 = 0 \<and> check2 = 0 \<and> contains_va s ptr
                  \<and> 36 \<le> offset_from_va s ptr - j \<and> offset_from_va s ptr - j \<le> 128
                  \<and> contains_va s name_ptr
                  \<and> unpack_I (stream_data s) (offset_from_va s name_ptr) = Some 0x624F5407
               then Some (offset_from_va s ptr - j)
               else None))"

text \<open>The first position of a list that is accepted, with its value.\<close>

fun first_accepted :: "(int \<Rightarrow> 'a option) \<Rightarrow> int list \<Rightarrow> (int \<times> 'a) option" where
  "first_accepted f [] = None"
| "first_accepted f (j # js) =
     (case f j of Some d \<Rightarrow> Some (j, d) | None \<Rightarrow> first_accepted f js)"

text \<open>
  What the claim says the locator returns: the first accepted position among
  the scanned ones, with \<open>vftable_length = difference\<close>, or nothing.
\<close>

definition first_tobject :: "pesection \<Rightarrow> tobject_result option" where
  "first_tobject s =
     map_option (\<lambda>(j, d). \<lparr>va = va_from_offset s j, vftable_length = d\<rparr>)
       (first_accepted (tobject_at s) (scan_offsets (size_s s - 128)))"


text \<open>
  The acceptance condition of the vftable scanner at offset \<open>i\<close> for header
  length \<open>hl\<close>: the self pointer, and five header slots after it that are
  zero or an address in the section.
\<close>

definition header_slot_ok :: "pesection \<Rightarrow> int \<Rightarrow> bool" where
  "header_slot_ok s pos =
     (case unpack_I (stream_data s) pos of
        None \<Rightarrow> False
      | Some v \<Rightarrow> v = 0 \<or> contains_va s v)"

definition vftable_candidate :: "pesection \<Rightarrow> int \<Rightarrow> int \<Rightarrow> bool" where
  "vftable_candidate s hl i =
     (unpack_I (stream_data s) i = Some (load_address s + i + hl) \<and>
      list_all (\<lambda>k. header_slot_ok s (i + 4 * int k)) [1, 2, 3, 4, 5])"

definition vftable_candidates :: "pesection \<Rightarrow> int \<Rightarrow> work_queue" where
  "vftable_candidates s hl =
     map (\<lambda>i. (load_address s + i, Vftable))
       (filter (vftable_candidate s hl) (scan_offsets (size_s s - hl)))"

text \<open>Predicates on the events of a trace.\<close>

fun is_construct :: "'o event \<Rightarrow> bool" where
  "is_construct (Construct p t s l r) = True"
| "is_construct _ = False"

fun is_construct_in :: "pass \<Rightarrow> 'o event \<Rightarrow> bool" where
  "is_construct_in p (Construct p' t s l r) = (p' = p)"
| "is_construct_in p _ = False"

fun construct_section :: "'o event \<Rightarrow> pesection option" where
  "construct_section (Construct p t s l r) = Some s"
| "construct_section _ = None"

fun built_object :: "'o event \<Rightarrow> 'o option" where
  "built_object (Construct p t s l (Built obj)) = Some obj"
| "built_object _ = None"

text \<open>The stages after the TObject scan: the vftable scan and the two passes.\<close>

fun is_later_stage :: "'o event \<Rightarrow> bool" where
  "is_later_stage FindVftables = True"
| "is_later_stage (GetItem f r) = True"
| "is_later_stage (Construct p t s l r) = True"
| "is_later_stage InferVersion = True"
| "is_later_stage _ = False"

text \<open>The sections of a list in which the TObject locator accepts a position.\<close>

definition accepting_sections :: "pesection list \<Rightarrow> pesection list" where
  "accepting_sections ss =
     filter (\<lambda>s. case find_tobject s of Inr (Some r) \<Rightarrow> True | _ \<Rightarrow> False) ss"

section \<open>Example inputs\<close>

text \<open>
  A section of 136 bytes loaded at \<open>0x1000\<close> with the base-object table at
  offset 0: the self pointer \<open>0x1024\<close> (header length 36), the name pointer
  \<open>0x1024\<close> at offset 32, and the bytes \<^verbatim>\<open>\x07TOb\<close> at offset 36.
\<close>

definition tobject_bytes :: "byte list" where
  "tobject_bytes =
     [0x24, 0x10, 0, 0] @ replicate 28 0 @ [0x24, 0x10, 0, 0] @ [0x07, 0x54, 0x4F, 0x62]
     @ replicate 96 0"

definition sec_tobject :: pesection where
  "sec_tobject = \<lparr>name = ''CODE'', load_address = 0x1000, size_s = 136,
                   stream_data = tobject_bytes\<rparr>"

text \<open>The same bytes loaded as a second section at \<open>0x1000\<close> under another name.\<close>

definition sec_tobject2 :: pesection where
  "sec_tobject2 = \<lparr>name = ''CODE2'', load_address = 0x1000, size_s = 136,
                    stream_data = tobject_bytes\<rparr>"

text \<open>A code section of 16 zero bytes at \<open>0x2000\<close>: nothing to find.\<close>

definition sec_plain :: pesection where
  "sec_plain = \<lparr>name = ''.text'', load_address = 0x2000, size_s = 16,
                 stream_data = replicate 16 0\<rparr>"


definition ctx_empty :: "(int, nat) recovery_context" where
  "ctx_empty = \<lparr>code_sections = [], data_sections = [], header_length = None,
                 object_section = None, version = None, items = []\<rparr>"

text \<open>
  Collaborators for the examples. A virtual table is built when its address
  lies in the section it is parsed against, and enqueues one follow-up
  record 4 bytes further; every other kind fails validation. The version
  fact is the number of objects recovered so far.
\<close>

definition env_example :: "(int, nat) collaborators" where
  "env_example =
     \<lparr>construct = (\<lambda>t s location ctx q.
         if t = Vftable \<and> contains_va s location
         then (Built location, add_item q (location + 4) (OtherType 0))
         else (ValidationError, q)),
      VersionHelper = (\<lambda>ctx. length (items ctx)),
      parse_init_table = (\<lambda>s pos ctx. None)\<rparr>"

definition image_of :: "pesection list \<Rightarrow> int option \<Rightarrow> int \<Rightarrow> pe_image" where
  "image_of code tp ep =
     \<lparr>pe_sections = map (\<lambda>s. (0x60000020, s)) code, table_pos = tp, entry_point = ep\<rparr>"

section \<open>Auxiliary definitions for the proofs\<close>

text \<open>
  The positions that a scan loop still visits when its counter is \<open>i\<close>, and
  the loop of \<^verbatim>\<open>_find_tobject\<close> as a recursion over a list of positions.
\<close>

definition offsets_from :: "int \<Rightarrow> int \<Rightarrow> int list" where
  "offsets_from i bound = map (\<lambda>k. i + 4 * int k) [0 ..< nat ((bound - i + 3) div 4)]"

fun scan_list :: "pesection \<Rightarrow> int list \<Rightarrow> exn + (int \<times> int) option" where
  "scan_list cs [] = Inr None"
| "scan_list cs (j # js) =
     (case tobject_probe cs j of
        Inl e \<Rightarrow> Inl e
      | Inr (Some d) \<Rightarrow> Inr (Some (j, d))
      | Inr None \<Rightarrow> scan_list cs js)"


text \<open>
  Kinds of events: a dequeue; an event of pass \<open>p\<close> run against the section
  \<open>cs\<close>; a construction that raised \<^verbatim>\<open>ValidationError\<close>; an event of the
  stages before the passes.
\<close>

fun is_get_item :: "'o event \<Rightarrow> bool" where
  "is_get_item (GetItem f r) = True"
| "is_get_item _ = False"

fun pass_event :: "pass \<Rightarrow> pesection \<Rightarrow> 'o event \<Rightarrow> bool" where
  "pass_event p cs (GetItem f r) = (f = pass_filter p)"
| "pass_event p cs (Construct p' t s l r) = (p' = p \<and> s = cs)"
| "pass_event p cs _ = False"

fun is_rejection :: "'o event \<Rightarrow> bool" where
  "is_rejection (Construct p t s l ValidationError) = True"
| "is_rejection _ = False"

fun is_parse_init_table :: "'o event \<Rightarrow> bool" where
  "is_parse_init_table (ParseInitTable s pos) = True"
| "is_parse_init_table _ = False"

fun is_setup :: "'o event \<Rightarrow> bool" where
  "is_setup (ParseInitTable s pos) = True"
| "is_setup (FindTObject s) = True"
| "is_setup FindVftables = True"
| "is_setup _ = False"

text \<open>
  In a list of events, every construction that raised \<^verbatim>\<open>ValidationError\<close>
  is directly followed by the next dequeue.
\<close>

fun validation_continues :: "'o event list \<Rightarrow> bool" where
  "validation_continues [] = True"
| "validation_continues (ev # rest) =
     ((is_rejection ev \<longrightarrow> (case rest of [] \<Rightarrow> False | ev' # _ \<Rightarrow> is_get_item ev'))
      \<and> validation_continues rest)"

text \<open>What one pass that returns has done, read from its result.\<close>

definition pass_post ::
  "pass \<Rightarrow> pesection \<Rightarrow> ('o, 'v) recovery_context \<Rightarrow> ('o, 'v) pass_result \<Rightarrow> bool" where
  "pass_post p cs ctx y =
     (case y of (e, ctx', q', evs) \<Rightarrow>
        list_all (pass_event p cs) evs
        \<and> ctx' = ctx\<lparr>items := items ctx @ List.map_filter built_object evs\<rparr>
        \<and> evs \<noteq> [] \<and> is_get_item (hd evs)
        \<and> validation_continues evs
        \<and> (case e of
              None \<Rightarrow> last evs = GetItem (pass_filter p) None
                       \<and> fst (get_item (pass_filter p) q') = None
            | Some x \<Rightarrow> x = CollaboratorError
                       \<and> (\<exists>t l. last evs = Construct p t cs l OtherException)))"

text \<open>The flag \<^verbatim>\<open>found\<close> of step 1 as a number of sections.\<close>

definition found_count :: "bool \<Rightarrow> nat" where
  "found_count found = (if found then 1 else 0)"

section \<open>Further definitions in the claims' words\<close>







section \<open>Further example inputs\<close>


text \<open>
  A section of 136 bytes at \<open>0x1000\<close> with the base-object table at offset 0
  (header length 36) and a second self pointer \<open>0x1064\<close> at offset 64: two
  virtual-table candidates, \<open>0x1000\<close> and \<open>0x1040\<close>.
\<close>

definition sec_two_tables :: pesection where
  "sec_two_tables = \<lparr>name = ''CODE'', load_address = 0x1000, size_s = 136,
       stream_data = [0x24, 0x10, 0, 0] @ replicate 28 0 @ [0x24, 0x10, 0, 0]
         @ [0x07, 0x54, 0x4F, 0x62] @ replicate 24 0 @ [0x64, 0x10, 0, 0] @ replicate 68 0\<rparr>"

text \<open>
  Collaborators that reject a virtual table at the very start of the section
  it is parsed against and build every other one, leaving the queue as it
  is; every other kind fails validation.
\<close>

definition env_picky :: "(int, nat) collaborators" where
  "env_picky =
     \<lparr>construct = (\<lambda>t s location ctx q.
         if t = Vftable \<and> location \<noteq> load_address s
         then (Built location, q)
         else (ValidationError, q)),
      VersionHelper = (\<lambda>ctx. length (items ctx)),
      parse_init_table = (\<lambda>s pos ctx. None)\<rparr>"


section \<open>Scan positions\<close>

lemma offsets_from_empty: "\<not> i < bound \<Longrightarrow> offsets_from i bound = []"
  by (simp add: offsets_from_def)

lemma offsets_from_step:
  assumes "i < bound"
  shows "offsets_from i bound = i # offsets_from (i + 4) bound"
proof -
  have n: "nat ((bound - i + 3) div 4) = Suc (nat ((bound - (i + 4) + 3) div 4))"
  proof -
    have "(bound - i + 3) div 4 = (bound - (i + 4) + 3) div 4 + 1" by presburger
    moreover have "0 \<le> (bound - (i + 4) + 3) div 4" using assms by presburger
    ultimately show ?thesis by simp
  qed
  have "[0 ..< Suc (nat ((bound - (i + 4) + 3) div 4))]
        = 0 # map Suc [0 ..< nat ((bound - (i + 4) + 3) div 4)]"
    by (simp add: upt_conv_Cons map_Suc_upt del: upt_Suc)
  then show ?thesis
    unfolding offsets_from_def n by (simp add: comp_def algebra_simps del: upt_Suc)
qed

lemma scan_offsets_from: "scan_offsets bound = offsets_from 0 bound"
  by (simp add: scan_offsets_def offsets_from_def)

lemma set_scan_offsets: "j \<in> set (scan_offsets bound) \<longleftrightarrow> 0 \<le> j \<and> j mod 4 = 0 \<and> j < bound"
proof
  assume "j \<in> set (scan_offsets bound)"
  then obtain k where k: "j = 4 * int k" "k < nat ((bound + 3) div 4)"
    by (auto simp: scan_offsets_def)
  then show "0 \<le> j \<and> j mod 4 = 0 \<and> j < bound" by auto
next
  assume a: "0 \<le> j \<and> j mod 4 = 0 \<and> j < bound"
  then have "j = 4 * int (nat (j div 4))" by auto
  moreover have "nat (j div 4) < nat ((bound + 3) div 4)" using a by auto
  ultimately show "j \<in> set (scan_offsets bound)"
    unfolding scan_offsets_def by (metis (no_types, lifting) atLeastLessThan_iff image_eqI list.set_map set_upt zero_le)
qed

section \<open>The TObject locator\<close>

lemma tobject_loop_scan_list:
  "tobject_loop cs i = scan_list cs (offsets_from i (size_s cs - 128))"
proof (induction cs i rule: tobject_loop.induct)
  case (1 cs i)
  show ?case
  proof (cases "i < size_s cs - 128")
    case True
    then show ?thesis
      using "1.IH" by (subst tobject_loop.simps) (simp add: offsets_from_step split: sum.splits option.splits)
  next
    case False
    then show ?thesis by (subst tobject_loop.simps) (simp add: offsets_from_empty)
  qed
qed



lemma tobject_probe_Inl: "tobject_probe cs j = Inl e \<Longrightarrow> e = StreamError"
  by (auto simp: tobject_probe_def Let_def split: option.splits if_splits)


lemma scan_list_Inl: "scan_list cs js = Inl e \<Longrightarrow> e = StreamError"
  by (induction js) (auto split: sum.splits option.splits dest: tobject_probe_Inl)




lemma find_tobject_Inl: "find_tobject cs = Inl e \<Longrightarrow> e = StreamError"
  using scan_list_Inl [of cs "scan_offsets (size_s cs - 128)" e]
  by (auto simp: find_tobject_def tobject_loop_scan_list scan_offsets_from
      split: sum.splits option.splits if_splits)




lemma first_accepted_None: "first_accepted f js = None \<longleftrightarrow> (\<forall>j\<in>set js. f j = None)"
  by (induction js) (auto split: option.splits)

lemma first_accepted_prefix:
  "first_accepted f js = Some (j, d) \<Longrightarrow>
     \<exists>pre post. js = pre @ j # post \<and> (\<forall>x\<in>set pre. f x = None) \<and> f j = Some d"
proof (induction js)
  case Nil
  then show ?case by simp
next
  case (Cons x js)
  show ?case
  proof (cases "f x")
    case None
    with Cons obtain pre post where
      "js = pre @ j # post" "\<forall>x\<in>set pre. f x = None" "f j = Some d"
      by auto
    with None have "x # js = (x # pre) @ j # post \<and> (\<forall>y\<in>set (x # pre). f y = None) \<and> f j = Some d"
      by simp
    then show ?thesis by blast
  next
    case (Some y)
    with Cons.prems have "x # js = [] @ j # js \<and> (\<forall>y\<in>set []. f y = None) \<and> f j = Some d"
      by simp
    then show ?thesis by blast
  qed
qed

lemma sorted_scan_offsets: "sorted_wrt (<) (scan_offsets bound)"
  by (simp add: scan_offsets_def sorted_wrt_map sorted_wrt_iff_nth_less)

text \<open>
  \<open>first_tobject\<close> read out: the accepted position is a scanned one, that is
  a multiple of 4 from 0 up to but excluding \<open>size - 128\<close>, and no scanned
  position before it is accepted.
\<close>

lemma first_tobject_Some:
  assumes "first_tobject s = Some r"
  shows "\<exists>j. 0 \<le> j \<and> j mod 4 = 0 \<and> j < size_s s - 128
             \<and> tobject_at s j = Some (vftable_length r) \<and> va r = va_from_offset s j
             \<and> (\<forall>j'. 0 \<le> j' \<and> j' mod 4 = 0 \<and> j' < j \<longrightarrow> tobject_at s j' = None)"
proof -
  from assms obtain j d where
    fa: "first_accepted (tobject_at s) (scan_offsets (size_s s - 128)) = Some (j, d)"
    and r: "r = \<lparr>va = va_from_offset s j, vftable_length = d\<rparr>"
    by (auto simp: first_tobject_def)
  from first_accepted_prefix [OF fa] obtain pre post where
    sp: "scan_offsets (size_s s - 128) = pre @ j # post"
    and pre: "\<forall>x\<in>set pre. tobject_at s x = None" and d: "tobject_at s j = Some d"
    by blast
  have jin: "j \<in> set (scan_offsets (size_s s - 128))" using sp by simp
  have "tobject_at s j' = None" if j': "0 \<le> j'" "j' mod 4 = 0" "j' < j" for j'
  proof -
    have "j' \<in> set (scan_offsets (size_s s - 128))"
      using j' jin by (simp add: set_scan_offsets)
    moreover have "j' \<notin> set (j # post)"
      using sorted_scan_offsets [of "size_s s - 128"] j'
      unfolding sp by (auto simp: sorted_wrt_append)
    ultimately have "j' \<in> set pre" unfolding sp by auto
    with pre show ?thesis by simp
  qed
  with jin d r show ?thesis by (auto simp: set_scan_offsets)
qed

lemma first_tobject_None:
  "first_tobject s = None \<longleftrightarrow>
     (\<forall>j. 0 \<le> j \<and> j mod 4 = 0 \<and> j < size_s s - 128 \<longrightarrow> tobject_at s j = None)"
  by (auto simp: first_tobject_def first_accepted_None set_scan_offsets)














text \<open>
  C9. For a section of fewer than 128 bytes the scan has no position to test,
  and \<^verbatim>\<open>_find_tobject\<close> returns no result without raising, whatever the
  byte stream holds: also for the empty stream, on which every read would
  fail.
\<close>

theorem find_tobject_short_section:
  "size_s cs < 128 \<Longrightarrow>
     scan_offsets (size_s cs - 128) = [] \<and> find_tobject (cs\<lparr>stream_data := d\<rparr>) = Inr None"
  by (simp add: scan_offsets_def find_tobject_def tobject_loop.simps [of _ 0])

theorem find_tobject_short_section_witness:
  "size_s sec_plain < 128 \<and> scan_offsets (size_s sec_plain - 128) = []
   \<and> find_tobject (sec_plain\<lparr>stream_data := []\<rparr>) = Inr None"
  using find_tobject_short_section [of sec_plain "[]"] by (simp add: sec_plain_def)

section \<open>The vftable scanner\<close>


lemma check_headers_Inr:
  "check_headers s n pos err = Inr r \<Longrightarrow>
     r = (err \<or> \<not> list_all (\<lambda>k. header_slot_ok s (pos + 4 * int k)) [0 ..< n])"
proof (induction n arbitrary: pos err)
  case 0
  then show ?case by simp
next
  case (Suc n)
  from Suc.prems obtain ptr where ptr: "unpack_I (stream_data s) pos = Some ptr"
    by (auto split: option.splits)
  let ?err = "if ptr \<noteq> 0 \<and> \<not> contains_va s ptr then True else err"
  from Suc.prems ptr have "check_headers s n (pos + 4) ?err = Inr r" by simp
  then have r: "r = (?err \<or> \<not> list_all (\<lambda>k. header_slot_ok s (pos + 4 + 4 * int k)) [0 ..< n])"
    by (rule Suc.IH)
  have up: "[0 ..< Suc n] = 0 # map Suc [0 ..< n]"
    by (simp add: upt_conv_Cons map_Suc_upt del: upt_Suc)
  have "list_all (\<lambda>k. header_slot_ok s (pos + 4 * int k)) [0 ..< Suc n]
        = (header_slot_ok s pos \<and> list_all (\<lambda>k. header_slot_ok s (pos + 4 + 4 * int k)) [0 ..< n])"
    unfolding up by (simp add: list.pred_map comp_def algebra_simps del: upt_Suc)
  moreover have "header_slot_ok s pos = (\<not> (ptr \<noteq> 0 \<and> \<not> contains_va s ptr))"
    using ptr by (simp add: header_slot_ok_def)
  ultimately show ?case using r by auto
qed

lemma check_headers_five:
  "check_headers s 5 (i + 4) False = Inr r \<Longrightarrow>
     r = (\<not> list_all (\<lambda>k. header_slot_ok s (i + 4 * int k)) [1, 2, 3, 4, 5])"
proof -
  assume "check_headers s 5 (i + 4) False = Inr r"
  then have "r = (\<not> list_all (\<lambda>k. header_slot_ok s (i + 4 + 4 * int k)) [0 ..< 5])"
    using check_headers_Inr [of s 5 "i + 4" False r] by simp
  moreover have "[0 ..< 5] = [0, 1, 2, 3, 4::nat]" by code_simp
  ultimately show ?thesis by (simp add: algebra_simps)
qed

lemma check_headers_readable:
  "0 \<le> pos \<Longrightarrow> pos + 4 * int n \<le> int (length (stream_data s)) \<Longrightarrow>
     \<exists>r. check_headers s n pos err = Inr r"
proof (induction n arbitrary: pos err)
  case 0
  then show ?case by simp
next
  case (Suc n)
  then have "unpack_I (stream_data s) pos \<noteq> None" by (simp add: unpack_I_def)
  then obtain ptr where ptr: "unpack_I (stream_data s) pos = Some ptr" by auto
  have "\<exists>r. check_headers s n (pos + 4)
               (if ptr \<noteq> 0 \<and> \<not> contains_va s ptr then True else err) = Inr r"
    using Suc.prems by (intro Suc.IH) simp_all
  with ptr show ?case by simp
qed

lemma vftables_loop_Inr:
  "vftables_loop s hl i found q = (Inr n, q') \<Longrightarrow>
     q' = q @ map (\<lambda>i. (load_address s + i, Vftable))
                (filter (vftable_candidate s hl) (offsets_from i (size_s s - hl)))
     \<and> n = found + length (filter (vftable_candidate s hl) (offsets_from i (size_s s - hl)))"
proof (induction s hl i found q rule: vftables_loop.induct)
  case (1 s hl i found q)
  show ?case
  proof (cases "i < size_s s - hl")
    case False
    with "1.prems" show ?thesis
      by (simp add: vftables_loop.simps [of s hl i] offsets_from_empty)
  next
    case True
    note off = offsets_from_step [OF True]
    from "1.prems" True obtain ptr where ptr: "unpack_I (stream_data s) i = Some ptr"
      by (auto simp: vftables_loop.simps [of s hl i] split: option.splits)
    show ?thesis
    proof (cases "load_address s + i + hl = ptr")
      case False
      then have nc: "\<not> vftable_candidate s hl i"
        using ptr by (simp add: vftable_candidate_def)
      from "1.prems" True ptr False
      have "vftables_loop s hl (i + 4) found q = (Inr n, q')"
        by (simp add: vftables_loop.simps [of s hl i])
      with "1.IH"(3) [OF True ptr refl] False nc off show ?thesis by simp
    next
      case eq: True
      from "1.prems" True ptr eq obtain err where
        err: "check_headers s 5 (i + 4) False = Inr err"
        by (auto simp: vftables_loop.simps [of s hl i] split: sum.splits)
      then have errv: "err = (\<not> vftable_candidate s hl i)"
        using check_headers_five [OF err] ptr eq by (simp add: vftable_candidate_def)
      show ?thesis
      proof (cases err)
        case True
        from "1.prems" \<open>i < size_s s - hl\<close> ptr eq err True
        have "vftables_loop s hl (i + 4) found q = (Inr n, q')"
          by (simp add: vftables_loop.simps [of s hl i])
        with "1.IH"(2) [OF \<open>i < size_s s - hl\<close> ptr refl _ err] eq True errv off
        show ?thesis by simp
      next
        case False
        from "1.prems" \<open>i < size_s s - hl\<close> ptr eq err False
        have "vftables_loop s hl (i + 4) (found + 1)
                (add_item q (load_address s + i) Vftable) = (Inr n, q')"
          by (simp add: vftables_loop.simps [of s hl i])
        with "1.IH"(1) [OF \<open>i < size_s s - hl\<close> ptr refl _ err] eq False errv off
        show ?thesis by (simp add: add_item_def)
      qed
    qed
  qed
qed

lemma vftables_loop_readable:
  "size_s s \<le> int (length (stream_data s)) \<Longrightarrow> 24 \<le> hl \<Longrightarrow> 0 \<le> i \<Longrightarrow>
     \<exists>n q'. vftables_loop s hl i found q = (Inr n, q')"
proof (induction s hl i found q rule: vftables_loop.induct)
  case (1 s hl i found q)
  show ?case
  proof (cases "i < size_s s - hl")
    case False
    then show ?thesis by (simp add: vftables_loop.simps [of s hl i])
  next
    case True
    with "1.prems" have "unpack_I (stream_data s) i \<noteq> None" by (simp add: unpack_I_def)
    then obtain ptr where ptr: "unpack_I (stream_data s) i = Some ptr" by auto
    have "\<exists>r. check_headers s 5 (i + 4) False = Inr r"
      using "1.prems" True by (intro check_headers_readable) simp_all
    then obtain err where err: "check_headers s 5 (i + 4) False = Inr err" by auto
    have pos: "0 \<le> i + 4" using "1.prems" by simp
    show ?thesis
    proof (cases "load_address s + i + hl = ptr")
      case False
      with "1.IH"(3) [OF True ptr refl _ "1.prems"(1,2) pos] True ptr
      show ?thesis by (simp add: vftables_loop.simps [of s hl i])
    next
      case eq: True
      show ?thesis
      proof (cases err)
        case True
        with "1.IH"(2) [OF \<open>i < size_s s - hl\<close> ptr refl _ err _ "1.prems"(1,2) pos]
          \<open>i < size_s s - hl\<close> ptr eq err
        show ?thesis by (simp add: vftables_loop.simps [of s hl i])
      next
        case False
        with "1.IH"(1) [OF \<open>i < size_s s - hl\<close> ptr refl _ err _ "1.prems"(1,2) pos]
          \<open>i < size_s s - hl\<close> ptr eq err
        show ?thesis by (simp add: vftables_loop.simps [of s hl i])
      qed
    qed
  qed
qed

text \<open>
  C2. With the object section \<open>s\<close> and the header length \<open>hl\<close> set in the
  context, a call of \<^verbatim>\<open>_find_vftables\<close> that returns has appended to the
  queue, in scan order, the address \<open>load_address + i\<close> of exactly those
  offsets \<open>i = 0, 4, 8, ... < size - hl\<close> that hold the self pointer
  \<open>load_address + i + hl\<close> followed by five slots that are zero or an
  address in the section, and returns their number. It has no access to the
  recovered objects: its result is the count and the queue. It returns
  whenever the stream covers the section and \<open>hl\<close> is at least 24, as every
  header length that the locator derives is.
\<close>

theorem find_vftables_candidates:
  assumes "object_section ctx = Some s" and "header_length ctx = Some hl"
  shows "(find_vftables ctx q = (Inr n, q') \<longrightarrow>
            q' = q @ vftable_candidates s hl \<and> n = length (vftable_candidates s hl))
         \<and> (size_s s \<le> int (length (stream_data s)) \<and> 24 \<le> hl \<longrightarrow>
              find_vftables ctx q
              = (Inr (length (vftable_candidates s hl)), q @ vftable_candidates s hl))"
proof -
  have fv: "find_vftables ctx q = vftables_loop s hl 0 0 q"
    using assms by (simp add: find_vftables_def)
  have a: "q' = q @ vftable_candidates s hl \<and> n = length (vftable_candidates s hl)"
    if "vftables_loop s hl 0 0 q = (Inr n, q')" for n q'
    using vftables_loop_Inr [OF that]
    by (simp add: vftable_candidates_def scan_offsets_from)
  have b: "\<exists>n q'. vftables_loop s hl 0 0 q = (Inr n, q')"
    if "size_s s \<le> int (length (stream_data s))" "24 \<le> hl"
    using vftables_loop_readable [OF that] by simp
  show ?thesis
    unfolding fv using a b by blast
qed


theorem find_vftables_candidates_witness:
  "find_vftables (ctx_empty\<lparr>header_length := Some 36, object_section := Some sec_tobject\<rparr>) []
   = (Inr 1, [(0x1000, Vftable)])"
proof -
  let ?ctx = "ctx_empty\<lparr>header_length := Some 36, object_section := Some sec_tobject\<rparr>"
  have c: "vftable_candidates sec_tobject 36 = [(0x1000, Vftable)]" by code_simp
  have l: "size_s sec_tobject \<le> int (length (stream_data sec_tobject))" by code_simp
  show ?thesis
    using find_vftables_candidates [of ?ctx sec_tobject 36 "[]" 1 "[(0x1000, Vftable)]"] c l
    by simp
qed

section \<open>The parsing passes\<close>

lemma get_item_of_None: "get_item_of t q = (None, q1) \<Longrightarrow> q1 = q"
  by (induction q arbitrary: q1) (auto split: if_splits prod.splits)

lemma get_item_None: "get_item f q = (None, q1) \<Longrightarrow> q1 = q"
  by (auto simp: get_item_def get_item_of_None split: option.splits list.splits)

lemma parse_pass_post:
  assumes "parse_pass env cs p ctx q = Some y"
  shows "pass_post p cs ctx y"
  using assms
proof (induct rule: parse_pass.raw_induct [rotated 1, consumes 1, case_names step])
  case (step parse_pass env cs p ctx q y)
  note body = step(2) and IH = step(1)
  show ?case
  proof (cases "get_item (pass_filter p) q")
    case (Pair it q1)
    show ?thesis
    proof (cases it)
      case None
      with Pair body have y: "y = (None, ctx, q1, [GetItem (pass_filter p) None])" by simp
      show ?thesis
        unfolding y pass_post_def using get_item_None [of "pass_filter p" q q1] Pair None
        by auto
    next
      case (Some item)
      obtain res q2 where c: "construct env (snd item) cs (fst item) ctx q1 = (res, q2)"
        by (cases "construct env (snd item) cs (fst item) ctx q1")
      show ?thesis
      proof (cases res)
        case (Built obj)
        with Pair Some c body obtain r where
          r: "parse_pass env cs p (ctx\<lparr>items := items ctx @ [obj]\<rparr>) q2 = Some r"
          and y: "y = after_events [GetItem (pass_filter p) (Some item),
                     Construct p (snd item) cs (fst item) (Built obj)] r"
          by (auto simp: bind_eq_Some_conv)
        from IH [OF r] show ?thesis
          unfolding y pass_post_def after_events_def
          by (cases r) (auto split: option.splits list.splits)
      next
        case ValidationError
        with Pair Some c body obtain r where
          r: "parse_pass env cs p ctx q2 = Some r"
          and y: "y = after_events [GetItem (pass_filter p) (Some item),
                     Construct p (snd item) cs (fst item) ValidationError] r"
          by (auto simp: bind_eq_Some_conv)
        from IH [OF r] show ?thesis
          unfolding y pass_post_def after_events_def
          by (cases r) (auto split: option.splits list.splits)
      next
        case OtherException
        with Pair Some c body have
          y: "y = (Some CollaboratorError, ctx, q2, [GetItem (pass_filter p) (Some item),
                     Construct p (snd item) cs (fst item) OtherException])"
          by simp
        show ?thesis unfolding y pass_post_def by simp
      qed
    qed
  qed
qed






lemma get_item_all_None: "fst (get_item None q) = None \<Longrightarrow> q = []"
  by (cases q) (simp_all add: get_item_def)



section \<open>The stages of \<^verbatim>\<open>analyse\<close>\<close>

lemma tobject_sections_frame:
  "tobject_sections ss found ctx = (e, f, ctx', evs) \<Longrightarrow>
     list_all is_setup evs \<and> list_all (\<lambda>ev. \<not> is_later_stage ev) evs
     \<and> items ctx' = items ctx \<and> version ctx' = version ctx
     \<and> code_sections ctx' = code_sections ctx \<and> data_sections ctx' = data_sections ctx"
proof (induction ss arbitrary: found ctx e f ctx' evs)
  case Nil
  then show ?case by simp
next
  case (Cons s ss)
  show ?case
  proof (cases "find_tobject s")
    case (Inl x)
    with Cons.prems show ?thesis by auto
  next
    case (Inr res)
    show ?thesis
    proof (cases res)
      case None
      with Inr Cons.prems obtain evs' where
        h: "tobject_sections ss found ctx = (e, f, ctx', evs')" and evs: "evs = FindTObject s # evs'"
        by (auto split: prod.splits)
      from Cons.IH [OF h] evs show ?thesis by simp
    next
      case (Some result)
      show ?thesis
      proof (cases found)
        case True
        with Inr Some Cons.prems show ?thesis by auto
      next
        case False
        with Inr Some Cons.prems obtain evs' where
          h: "tobject_sections ss True (ctx\<lparr>header_length := Some (vftable_length result),
              object_section := Some s\<rparr>) = (e, f, ctx', evs')" and evs: "evs = FindTObject s # evs'"
          by (auto split: prod.splits)
        from Cons.IH [OF h] evs show ?thesis by simp
      qed
    qed
  qed
qed



lemma accepting_sections_Cons:
  "accepting_sections (s # ss) =
     (case find_tobject s of Inr (Some r) \<Rightarrow> s # accepting_sections ss | _ \<Rightarrow> accepting_sections ss)"
  by (simp add: accepting_sections_def split: sum.splits option.splits)

lemma tobject_sections_None:
  "tobject_sections ss found ctx = (None, f, ctx', evs) \<Longrightarrow>
     f = (found \<or> accepting_sections ss \<noteq> [])
     \<and> found_count found + length (accepting_sections ss) \<le> 1"
proof (induction ss arbitrary: found ctx evs)
  case Nil
  then show ?case by (simp add: accepting_sections_def found_count_def)
next
  case (Cons s ss)
  show ?case
  proof (cases "find_tobject s")
    case (Inl x)
    with Cons.prems show ?thesis by simp
  next
    case (Inr res)
    show ?thesis
    proof (cases res)
      case None
      with Inr Cons.prems obtain evs' where
        h: "tobject_sections ss found ctx = (None, f, ctx', evs')"
        by (simp split: prod.splits)
      from Cons.IH [OF h] Inr None show ?thesis by (simp add: accepting_sections_Cons)
    next
      case (Some result)
      show ?thesis
      proof (cases found)
        case True
        with Inr Some Cons.prems show ?thesis by simp
      next
        case False
        with Inr Some Cons.prems obtain evs' where
          h: "tobject_sections ss True (ctx\<lparr>header_length := Some (vftable_length result),
              object_section := Some s\<rparr>) = (None, f, ctx', evs')"
          by (simp split: prod.splits)
        from Cons.IH [OF h] Inr Some False show ?thesis
          by (simp add: accepting_sections_Cons found_count_def)
      qed
    qed
  qed
qed

lemma tobject_sections_none_accepted:
  "tobject_sections ss found ctx = (e, f, ctx', evs) \<Longrightarrow> accepting_sections ss = [] \<Longrightarrow>
     ctx' = ctx \<and> f = found"
proof (induction ss arbitrary: evs)
  case Nil
  then show ?case by simp
next
  case (Cons s ss)
  show ?case
  proof (cases "find_tobject s")
    case (Inl x)
    with Cons.prems show ?thesis by simp
  next
    case (Inr res)
    show ?thesis
    proof (cases res)
      case None
      with Inr Cons.prems obtain evs' where
        h: "tobject_sections ss found ctx = (e, f, ctx', evs')"
        by (simp split: prod.splits)
      from Cons.prems Inr None have "accepting_sections ss = []"
        by (simp add: accepting_sections_Cons)
      with Cons.IH [OF h] show ?thesis by simp
    next
      case (Some result)
      with Inr Cons.prems show ?thesis by (simp add: accepting_sections_Cons)
    qed
  qed
qed

lemma tobject_sections_exn:
  "tobject_sections ss found ctx = (e, f, ctx', evs) \<Longrightarrow>
   list_all (\<lambda>s. find_tobject s \<noteq> Inl StreamError) ss \<Longrightarrow>
     e = (if 2 \<le> found_count found + length (accepting_sections ss)
          then Some ObjectsInMoreThanOneSection else None)"
proof (induction ss arbitrary: found ctx evs)
  case Nil
  then show ?case by (simp add: accepting_sections_def found_count_def)
next
  case (Cons s ss)
  from Cons.prems have rest: "list_all (\<lambda>s. find_tobject s \<noteq> Inl StreamError) ss" by simp
  show ?case
  proof (cases "find_tobject s")
    case (Inl x)
    then have "x = StreamError" by (rule find_tobject_Inl)
    with Inl Cons.prems show ?thesis by simp
  next
    case (Inr res)
    show ?thesis
    proof (cases res)
      case None
      with Inr Cons.prems obtain evs' where
        h: "tobject_sections ss found ctx = (e, f, ctx', evs')"
        by (simp split: prod.splits)
      from Cons.IH [OF h rest] Inr None show ?thesis by (simp add: accepting_sections_Cons)
    next
      case (Some result)
      show ?thesis
      proof (cases found)
        case True
        with Inr Some Cons.prems show ?thesis
          by (simp add: accepting_sections_Cons found_count_def)
      next
        case False
        with Inr Some Cons.prems obtain evs' where
          h: "tobject_sections ss True (ctx\<lparr>header_length := Some (vftable_length result),
              object_section := Some s\<rparr>) = (e, f, ctx', evs')"
          by (simp split: prod.splits)
        from Cons.IH [OF h rest] Inr Some False show ?thesis
          by (simp add: accepting_sections_Cons found_count_def)
      qed
    qed
  qed
qed


lemma parsing_stages_Some:
  assumes "parsing_stages env cs ctx q = Some r"
  shows "\<exists>ea ctx_a q_a evs_a.
           parse_pass env cs PassA ctx q = Some (ea, ctx_a, q_a, evs_a) \<and>
           ((\<exists>e. ea = Some e \<and>
                 r = \<lparr>outcome = Raised e, final_context = ctx_a, final_queue = q_a,
                      trace = evs_a\<rparr>)
            \<or> (ea = None \<and>
                (\<exists>eb ctx_b q_b evs_b.
                    parse_pass env cs PassB
                      (ctx_a\<lparr>version := Some (VersionHelper env ctx_a)\<rparr>) q_a
                    = Some (eb, ctx_b, q_b, evs_b) \<and>
                    r = \<lparr>outcome = (case eb of None \<Rightarrow> Completed | Some e \<Rightarrow> Raised e),
                         final_context = ctx_b, final_queue = q_b,
                         trace = evs_a @ [InferVersion] @ evs_b\<rparr>)))"
proof -
  from assms obtain ya where
    ya: "parse_pass env cs PassA ctx q = Some ya"
    by (auto simp: parsing_stages_def bind_eq_Some_conv)
  obtain ea ctx_a q_a evs_a where yat: "ya = (ea, ctx_a, q_a, evs_a)" by (cases ya)
  show ?thesis
  proof (cases ea)
    case (Some e)
    with assms ya yat show ?thesis by (simp add: parsing_stages_def)
  next
    case None
    with assms ya yat obtain yb where
      yb: "parse_pass env cs PassB (ctx_a\<lparr>version := Some (VersionHelper env ctx_a)\<rparr>) q_a
           = Some yb"
      by (auto simp: parsing_stages_def bind_eq_Some_conv Let_def)
    obtain eb ctx_b q_b evs_b where ybt: "yb = (eb, ctx_b, q_b, evs_b)" by (cases yb)
    from assms ya yat None yb ybt show ?thesis
      by (simp add: parsing_stages_def Let_def)
  qed
qed

lemma object_stages_Some:
  assumes "object_stages env cs ctx = Some r"
    and ts: "tobject_sections (code_sections ctx) False ctx = (e, found, ctx2, evs1)"
  shows "(\<exists>x. e = Some x \<and>
                 r = \<lparr>outcome = Raised x, final_context = ctx2, final_queue = [],
                      trace = evs1\<rparr>)
            \<or> (e = None \<and> \<not> found \<and>
                 r = \<lparr>outcome = NoTObject, final_context = ctx2, final_queue = [],
                      trace = evs1\<rparr>)
            \<or> (e = None \<and> found \<and>
                (\<exists>x q. find_vftables ctx2 [] = (Inl x, q) \<and>
                    r = \<lparr>outcome = Raised x, final_context = ctx2, final_queue = q,
                         trace = evs1 @ [FindVftables]\<rparr>))
            \<or> (e = None \<and> found \<and>
                (\<exists>n q r'. find_vftables ctx2 [] = (Inr n, q) \<and>
                    parsing_stages env cs ctx2 q = Some r' \<and>
                    r = r'\<lparr>trace := evs1 @ [FindVftables] @ trace r'\<rparr>))"
proof (cases e)
  case (Some x)
  with assms show ?thesis by (simp add: object_stages_def)
next
  case None
  show ?thesis
  proof (cases found)
    case False
    with assms None show ?thesis by (simp add: object_stages_def)
  next
    case True
    obtain res q where fv: "find_vftables ctx2 [] = (res, q)"
      by (cases "find_vftables ctx2 []")
    show ?thesis
    proof (cases res)
      case (Inl x)
      with assms None True fv show ?thesis by (simp add: object_stages_def)
    next
      case (Inr n)
      with assms None True fv obtain r' where
        "parsing_stages env cs ctx2 q = Some r'"
        "r = r'\<lparr>trace := evs1 @ [FindVftables] @ trace r'\<rparr>"
        by (auto simp: object_stages_def)
      with None True fv Inr show ?thesis by simp
    qed
  qed
qed

lemma init_table_stage_events:
  "init_table_stage env cs tp ctx = (e, evs) \<Longrightarrow>
     list_all is_setup evs \<and> list_all (\<lambda>ev. \<not> is_later_stage ev) evs"
  by (auto simp: init_table_stage_def split: option.splits if_splits)




lemma pass_event_props:
  "pass_event p cs ev \<Longrightarrow>
     ev \<noteq> InferVersion \<and> \<not> is_setup ev \<and> (p' \<noteq> p \<longrightarrow> \<not> is_construct_in p' ev)
     \<and> (is_construct ev \<longrightarrow> construct_section ev = Some cs) \<and> is_later_stage ev"
  by (cases ev) auto



lemma parsing_stages_run:
  assumes "parsing_stages env cs ctx q = Some r"
  shows "\<exists>evs_a. list_all (pass_event PassA cs) evs_a \<and> evs_a \<noteq> [] \<and> is_get_item (hd evs_a)
           \<and> validation_continues evs_a \<and> \<not> is_rejection (last evs_a) \<and>
           ((trace r = evs_a \<and> outcome r = Raised CollaboratorError
             \<and> items (final_context r) = items ctx @ List.map_filter built_object evs_a)
            \<or> (last evs_a = GetItem (Some Vftable) None \<and>
                (\<exists>evs_b. list_all (pass_event PassB cs) evs_b \<and> evs_b \<noteq> []
                   \<and> is_get_item (hd evs_b) \<and> validation_continues evs_b
                   \<and> trace r = evs_a @ InferVersion # evs_b
                   \<and> items (final_context r)
                       = items ctx @ List.map_filter built_object evs_a
                           @ List.map_filter built_object evs_b
                   \<and> ((outcome r = Completed \<and> final_queue r = []
                        \<and> last evs_b = GetItem None None)
                       \<or> outcome r = Raised CollaboratorError))))"
proof -
  from parsing_stages_Some [OF assms] obtain ea ctx_a q_a evs_a where
    pa: "parse_pass env cs PassA ctx q = Some (ea, ctx_a, q_a, evs_a)" and
    alt: "(\<exists>e. ea = Some e \<and>
               r = \<lparr>outcome = Raised e, final_context = ctx_a, final_queue = q_a,
                    trace = evs_a\<rparr>)
          \<or> (ea = None \<and>
              (\<exists>eb ctx_b q_b evs_b.
                  parse_pass env cs PassB
                    (ctx_a\<lparr>version := Some (VersionHelper env ctx_a)\<rparr>) q_a
                  = Some (eb, ctx_b, q_b, evs_b) \<and>
                  r = \<lparr>outcome = (case eb of None \<Rightarrow> Completed | Some e \<Rightarrow> Raised e),
                       final_context = ctx_b, final_queue = q_b,
                       trace = evs_a @ [InferVersion] @ evs_b\<rparr>))"
    by blast
  from parse_pass_post [OF pa] have
    a1: "list_all (pass_event PassA cs) evs_a" and
    a2: "ctx_a = ctx\<lparr>items := items ctx @ List.map_filter built_object evs_a\<rparr>" and
    a3: "evs_a \<noteq> []" "is_get_item (hd evs_a)" "validation_continues evs_a" and
    a4: "case ea of
           None \<Rightarrow> last evs_a = GetItem (pass_filter PassA) None
                    \<and> fst (get_item (pass_filter PassA) q_a) = None
         | Some x \<Rightarrow> x = CollaboratorError
                    \<and> (\<exists>t l. last evs_a = Construct PassA t cs l OtherException)"
    by (simp_all add: pass_post_def)
  from a4 have a5: "\<not> is_rejection (last evs_a)"
    by (cases ea) auto
  from alt show ?thesis
  proof
    assume "\<exists>e. ea = Some e \<and>
               r = \<lparr>outcome = Raised e, final_context = ctx_a, final_queue = q_a,
                    trace = evs_a\<rparr>"
    then obtain e where e: "ea = Some e" and
      r: "r = \<lparr>outcome = Raised e, final_context = ctx_a, final_queue = q_a, trace = evs_a\<rparr>"
      by blast
    from a4 e have "e = CollaboratorError" by simp
    with r a2 have "trace r = evs_a \<and> outcome r = Raised CollaboratorError
             \<and> items (final_context r) = items ctx @ List.map_filter built_object evs_a"
      by simp
    with a1 a3 a5 show ?thesis by blast
  next
    assume "ea = None \<and>
              (\<exists>eb ctx_b q_b evs_b.
                  parse_pass env cs PassB
                    (ctx_a\<lparr>version := Some (VersionHelper env ctx_a)\<rparr>) q_a
                  = Some (eb, ctx_b, q_b, evs_b) \<and>
                  r = \<lparr>outcome = (case eb of None \<Rightarrow> Completed | Some e \<Rightarrow> Raised e),
                       final_context = ctx_b, final_queue = q_b,
                       trace = evs_a @ [InferVersion] @ evs_b\<rparr>)"
    then obtain eb ctx_b q_b evs_b where ea: "ea = None" and
      pb: "parse_pass env cs PassB (ctx_a\<lparr>version := Some (VersionHelper env ctx_a)\<rparr>) q_a
           = Some (eb, ctx_b, q_b, evs_b)" and
      r: "r = \<lparr>outcome = (case eb of None \<Rightarrow> Completed | Some e \<Rightarrow> Raised e),
                final_context = ctx_b, final_queue = q_b,
                trace = evs_a @ [InferVersion] @ evs_b\<rparr>"
      by blast
    from parse_pass_post [OF pb] have
      b1: "list_all (pass_event PassB cs) evs_b" and
      b2: "items ctx_b = items ctx_a @ List.map_filter built_object evs_b" and
      b3: "evs_b \<noteq> []" "is_get_item (hd evs_b)" "validation_continues evs_b" and
      b4: "case eb of
             None \<Rightarrow> last evs_b = GetItem (pass_filter PassB) None
                      \<and> fst (get_item (pass_filter PassB) q_b) = None
           | Some x \<Rightarrow> x = CollaboratorError
                      \<and> (\<exists>t l. last evs_b = Construct PassB t cs l OtherException)"
      by (simp_all add: pass_post_def)
    have la: "last evs_a = GetItem (Some Vftable) None" using a4 ea by simp
    have out: "(outcome r = Completed \<and> final_queue r = [] \<and> last evs_b = GetItem None None)
               \<or> outcome r = Raised CollaboratorError"
    proof (cases eb)
      case None
      with b4 have "fst (get_item None q_b) = None" "last evs_b = GetItem None None" by simp_all
      then have "q_b = []" "last evs_b = GetItem None None"
        by (simp_all add: get_item_all_None)
      with r None show ?thesis by simp
    next
      case (Some x)
      with b4 r show ?thesis by simp
    qed
    have tr: "trace r = evs_a @ InferVersion # evs_b" using r by simp
    have it: "items (final_context r)
               = items ctx @ List.map_filter built_object evs_a
                   @ List.map_filter built_object evs_b"
      using r a2 b2 by simp
    from b1 b3 tr it out have
      "\<exists>evs_b. list_all (pass_event PassB cs) evs_b \<and> evs_b \<noteq> []
                   \<and> is_get_item (hd evs_b) \<and> validation_continues evs_b
                   \<and> trace r = evs_a @ InferVersion # evs_b
                   \<and> items (final_context r)
                       = items ctx @ List.map_filter built_object evs_a
                           @ List.map_filter built_object evs_b
                   \<and> ((outcome r = Completed \<and> final_queue r = []
                        \<and> last evs_b = GetItem None None)
                       \<or> outcome r = Raised CollaboratorError)"
      by blast
    with a1 a3 a5 la show ?thesis by blast
  qed
qed





lemma pass_events:
  assumes "list_all (pass_event p cs) evs"
  shows "InferVersion \<notin> set evs"
    "p' \<noteq> p \<Longrightarrow> list_all (\<lambda>ev. \<not> is_construct_in p' ev) evs"
    "list_all (\<lambda>ev. is_construct ev \<longrightarrow> construct_section ev = Some cs) evs"
    "list_all (\<lambda>ev. \<not> is_parse_init_table ev) evs"
proof -
  have all: "\<forall>ev\<in>set evs. pass_event p cs ev" using assms by (simp add: list_all_iff)
  show "InferVersion \<notin> set evs" using all pass_event_props by blast
  have "\<not> is_construct_in p' ev" if "pass_event p cs ev" "p' \<noteq> p" for ev
    using that by (cases ev) auto
  then show "p' \<noteq> p \<Longrightarrow> list_all (\<lambda>ev. \<not> is_construct_in p' ev) evs"
    using all by (auto simp: list_all_iff)
  have "construct_section ev = Some cs" if "pass_event p cs ev" "is_construct ev" for ev
    using that by (cases ev) auto
  then show "list_all (\<lambda>ev. is_construct ev \<longrightarrow> construct_section ev = Some cs) evs"
    using all by (auto simp: list_all_iff)
  have "\<not> is_parse_init_table ev" if "pass_event p cs ev" for ev
    using that by (cases ev) simp_all
  then show "list_all (\<lambda>ev. \<not> is_parse_init_table ev) evs"
    using all by (auto simp: list_all_iff)
qed



section \<open>Example runs\<close>

lemma example_run:
  "analyse env_example (image_of [sec_tobject] None 0x1000) ctx_empty =
     Some \<lparr>outcome = Completed,
           final_context = \<lparr>code_sections = [sec_tobject], data_sections = [],
                            header_length = Some 36, object_section = Some sec_tobject,
                            version = Some 1, items = [0x1000]\<rparr>,
           final_queue = [],
           trace = [FindTObject sec_tobject, FindVftables,
                    GetItem (Some Vftable) (Some (0x1000, Vftable)),
                    Construct PassA Vftable sec_tobject 0x1000 (Built 0x1000),
                    GetItem (Some Vftable) None,
                    InferVersion,
                    GetItem None (Some (0x1004, OtherType 0)),
                    Construct PassB (OtherType 0) sec_tobject 0x1004 ValidationError,
                    GetItem None None]\<rparr>"
  by code_simp

lemma example_run_two_sections:
  "analyse env_example (image_of [sec_plain, sec_tobject] (Some 5) 0x1010) ctx_empty =
     Some \<lparr>outcome = Completed,
           final_context = \<lparr>code_sections = [sec_plain, sec_tobject], data_sections = [],
                            header_length = Some 36, object_section = Some sec_tobject,
                            version = Some 0, items = []\<rparr>,
           final_queue = [],
           trace = [ParseInitTable sec_plain 5, FindTObject sec_plain, FindTObject sec_tobject,
                    FindVftables,
                    GetItem (Some Vftable) (Some (0x1000, Vftable)),
                    Construct PassA Vftable sec_plain 0x1000 ValidationError,
                    GetItem (Some Vftable) None,
                    InferVersion,
                    GetItem None None]\<rparr>"
  by code_simp

lemma example_run_no_tobject:
  "analyse env_example (image_of [sec_plain] (Some 5) 0x2000) ctx_empty =
     Some \<lparr>outcome = NoTObject,
           final_context = \<lparr>code_sections = [sec_plain], data_sections = [],
                            header_length = None, object_section = None,
                            version = None, items = []\<rparr>,
           final_queue = [],
           trace = [ParseInitTable sec_plain 5, FindTObject sec_plain]\<rparr>"
  by code_simp

lemma example_run_twice:
  "analyse env_example (image_of [sec_tobject, sec_tobject2] (Some 5) 0x1000) ctx_empty =
     Some \<lparr>outcome = Raised ObjectsInMoreThanOneSection,
           final_context = \<lparr>code_sections = [sec_tobject, sec_tobject2], data_sections = [],
                            header_length = Some 36, object_section = Some sec_tobject,
                            version = None, items = []\<rparr>,
           final_queue = [],
           trace = [ParseInitTable sec_tobject 5, FindTObject sec_tobject,
                    FindTObject sec_tobject2]\<rparr>"
  by code_simp


lemma example_run_picky:
  "analyse env_picky (image_of [sec_two_tables] None 0x1000) ctx_empty =
     Some \<lparr>outcome = Completed,
           final_context = \<lparr>code_sections = [sec_two_tables], data_sections = [],
                            header_length = Some 36, object_section = Some sec_two_tables,
                            version = Some 1, items = [0x1040]\<rparr>,
           final_queue = [],
           trace = [FindTObject sec_two_tables, FindVftables,
                    GetItem (Some Vftable) (Some (0x1000, Vftable)),
                    Construct PassA Vftable sec_two_tables 0x1000 ValidationError,
                    GetItem (Some Vftable) (Some (0x1040, Vftable)),
                    Construct PassA Vftable sec_two_tables 0x1040 (Built 0x1040),
                    GetItem (Some Vftable) None,
                    InferVersion,
                    GetItem None None]\<rparr>"
  by code_simp




section \<open>The order of the passes and the version inference\<close>







section \<open>Validation errors\<close>






















section \<open>The unit-initialisation table\<close>

lemma tobject_sections_no_init:
  "tobject_sections ss found ctx = (e, f, ctx', evs) \<Longrightarrow>
     list_all (\<lambda>ev. \<not> is_parse_init_table ev) evs"
proof (induction ss arbitrary: found ctx e f ctx' evs)
  case Nil
  then show ?case by simp
next
  case (Cons s ss)
  show ?case
  proof (cases "find_tobject s")
    case (Inl x)
    with Cons.prems show ?thesis by auto
  next
    case (Inr res)
    show ?thesis
    proof (cases res)
      case None
      with Inr Cons.prems obtain evs' where
        h: "tobject_sections ss found ctx = (e, f, ctx', evs')" and evs: "evs = FindTObject s # evs'"
        by (auto split: prod.splits)
      from Cons.IH [OF h] evs show ?thesis by simp
    next
      case (Some result)
      show ?thesis
      proof (cases found)
        case True
        with Inr Some Cons.prems show ?thesis by auto
      next
        case False
        with Inr Some Cons.prems obtain evs' where
          h: "tobject_sections ss True (ctx\<lparr>header_length := Some (vftable_length result),
              object_section := Some s\<rparr>) = (e, f, ctx', evs')" and evs: "evs = FindTObject s # evs'"
          by (auto split: prod.splits)
        from Cons.IH [OF h] evs show ?thesis by simp
      qed
    qed
  qed
qed

lemma object_stages_no_init:
  assumes "object_stages env cs ctx = Some r"
  shows "list_all (\<lambda>ev. \<not> is_parse_init_table ev) (trace r)"
proof -
  obtain e found ctx2 evs1 where
    ts: "tobject_sections (code_sections ctx) False ctx = (e, found, ctx2, evs1)"
    by (cases "tobject_sections (code_sections ctx) False ctx") auto
  note ni = tobject_sections_no_init [OF ts]
  from object_stages_Some [OF assms ts] consider
    (early) "trace r = evs1 \<or> trace r = evs1 @ [FindVftables]"
  | (passes) q r' where
      "parsing_stages env cs ctx2 q = Some r'"
      "r = r'\<lparr>trace := evs1 @ [FindVftables] @ trace r'\<rparr>"
    by auto
  then show ?thesis
  proof cases
    case early
    with ni show ?thesis by auto
  next
    case passes
    from parsing_stages_run [OF passes(1)] obtain evs_a where
      a: "list_all (pass_event PassA cs) evs_a" and
      alt: "trace r' = evs_a
            \<or> (\<exists>evs_b. list_all (pass_event PassB cs) evs_b
                  \<and> trace r' = evs_a @ InferVersion # evs_b)"
      by blast
    from alt have "list_all (\<lambda>ev. \<not> is_parse_init_table ev) (trace r')"
    proof
      assume "trace r' = evs_a"
      with pass_events(4) [OF a] show ?thesis by simp
    next
      assume "\<exists>evs_b. list_all (pass_event PassB cs) evs_b
                  \<and> trace r' = evs_a @ InferVersion # evs_b"
      then obtain evs_b where "list_all (pass_event PassB cs) evs_b"
        "trace r' = evs_a @ InferVersion # evs_b" by blast
      with pass_events(4) [OF a] pass_events(4) [of PassB cs evs_b] show ?thesis by simp
    qed
    with ni passes(2) show ?thesis by simp
  qed
qed

text \<open>
  C4, as amended. When the unit-initialisation table is absent
  (\<^verbatim>\<open>find_init_table\<close> returns nothing, or a position that is false in
  Python), \<^verbatim>\<open>analyse\<close> only skips the call of \<^verbatim>\<open>parse_init_table\<close>: the run is what
  the run with the table present at any position \<open>pos\<close> is, less that one call,
  provided the call would have returned.
\<close>

theorem analyse_without_init_table:
  assumes absent: "table_pos pe = None \<or> table_pos pe = Some 0"
    and pos: "pos \<noteq> 0"
    and quiet: "\<forall>s c. parse_init_table env s pos c = None"
  shows "analyse env pe ctx0
         = map_option (\<lambda>r. r\<lparr>trace := filter (\<lambda>ev. \<not> is_parse_init_table ev) (trace r)\<rparr>)
             (analyse env (pe\<lparr>table_pos := Some pos\<rparr>) ctx0)"
proof -
  let ?pe' = "pe\<lparr>table_pos := Some pos\<rparr>"
  let ?ctx1 = "ctx0\<lparr>code_sections := find_code_sections pe,
                     data_sections := find_data_sections pe\<rparr>"
  have secs: "find_code_sections ?pe' = find_code_sections pe"
    "find_data_sections ?pe' = find_data_sections pe"
    by (simp_all add: find_code_sections_def find_data_sections_def find_sections_def)
  show ?thesis
  proof (cases "find (\<lambda>s. contains_va s (load_address s)) (find_code_sections pe)")
    case None
    then show ?thesis by (simp add: analyse_def Let_def secs)
  next
    case (Some cs)
    have i0: "init_table_stage env cs (table_pos pe) ?ctx1 = (None, [])"
      using absent by (auto simp: init_table_stage_def)
    have i1: "init_table_stage env cs (Some pos) ?ctx1 = (None, [ParseInitTable cs pos])"
      using pos quiet by (simp add: init_table_stage_def)
    show ?thesis
    proof (cases "object_stages env cs ?ctx1")
      case None
      with Some i0 i1 show ?thesis by (simp add: analyse_def Let_def secs)
    next
      case (Some r')
      from object_stages_no_init [OF Some]
      have "filter (\<lambda>ev. \<not> is_parse_init_table ev) (trace r') = trace r'"
        by (simp add: list_all_iff)
      with \<open>find _ _ = Some cs\<close> Some i0 i1 show ?thesis
        by (simp add: analyse_def Let_def secs)
    qed
  qed
qed

text \<open>Two code sections, with the table at position 5 and without it.\<close>

theorem analyse_without_init_table_witness:
  "map_option (\<lambda>r. r\<lparr>trace := filter (\<lambda>ev. \<not> is_parse_init_table ev) (trace r)\<rparr>)
     (analyse env_example (image_of [sec_plain, sec_tobject] (Some 5) 0x1010) ctx_empty)
   = analyse env_example (image_of [sec_plain, sec_tobject] None 0x1010) ctx_empty
   \<and> map_option outcome
        (analyse env_example (image_of [sec_plain, sec_tobject] None 0x1010) ctx_empty)
      = Some Completed"
proof -
  have q: "\<forall>s c. parse_init_table env_example s 5 c = None" by (simp add: env_example_def)
  have u: "(image_of [sec_plain, sec_tobject] None 0x1010)\<lparr>table_pos := Some 5\<rparr>
           = image_of [sec_plain, sec_tobject] (Some 5) 0x1010"
    by (simp add: image_of_def)
  have t: "table_pos (image_of [sec_plain, sec_tobject] None 0x1010) = None"
    by (simp add: image_of_def)
  show ?thesis
    using analyse_without_init_table
      [of "image_of [sec_plain, sec_tobject] None 0x1010" 5 env_example ctx_empty] q u t
    by (simp add: example_run_two_sections)
qed

text \<open>
  C4 as stated fails: with no unit-initialisation table the run goes through
  the vftable scan, both passes and the version inference, and completes.
\<close>

theorem analyse_continues_without_init_table_counterexample:
  "\<exists>r. table_pos (image_of [sec_tobject] None 0x1000) = None
       \<and> analyse env_example (image_of [sec_tobject] None 0x1000) ctx_empty = Some r
       \<and> outcome r = Completed
       \<and> filter is_later_stage (trace r)
         = [FindVftables,
            GetItem (Some Vftable) (Some (0x1000, Vftable)),
            Construct PassA Vftable sec_tobject 0x1000 (Built 0x1000),
            GetItem (Some Vftable) None,
            InferVersion,
            GetItem None (Some (0x1004, OtherType 0)),
            Construct PassB (OtherType 0) sec_tobject 0x1004 ValidationError,
            GetItem None None]"
proof -
  have "table_pos (image_of [sec_tobject] None 0x1000) = None"
    by (simp add: image_of_def)
  then show ?thesis by (simp add: example_run)
qed


section \<open>The number of sections that hold the base-object table\<close>

text \<open>
  C6. When the locator accepts a position in no code section or in more than
  one, \<^verbatim>\<open>analyse\<close> returns or raises without completing: no vftable scan, no
  dequeue, no construction and no version inference happens, nothing is
  queued, and the context keeps the sections it was given at the start of
  the run and the items and version it came with. If the run gets as far as
  step 1 and no scan fails on a read, it ends with the early return of line
  180 when no section is accepted, with the header length and the object
  section still unset, and with the exception of line 172 when several are.
\<close>

theorem tobject_count_fatal:
  assumes count: "length (accepting_sections (find_code_sections pe)) \<noteq> 1"
  shows "\<exists>r. analyse env pe ctx0 = Some r
           \<and> outcome r \<noteq> Completed
           \<and> list_all (\<lambda>ev. \<not> is_later_stage ev) (trace r)
           \<and> final_queue r = []
           \<and> items (final_context r) = items ctx0
           \<and> version (final_context r) = version ctx0
           \<and> code_sections (final_context r) = find_code_sections pe
           \<and> data_sections (final_context r) = find_data_sections pe
           \<and> (find (\<lambda>s. contains_va s (load_address s)) (find_code_sections pe) \<noteq> None
                \<and> (\<forall>s p c. parse_init_table env s p c = None)
                \<and> list_all (\<lambda>s. find_tobject s \<noteq> Inl StreamError) (find_code_sections pe)
               \<longrightarrow> outcome r = (if accepting_sections (find_code_sections pe) = []
                                then NoTObject else Raised ObjectsInMoreThanOneSection)
                   \<and> (accepting_sections (find_code_sections pe) = []
                        \<longrightarrow> header_length (final_context r) = header_length ctx0
                            \<and> object_section (final_context r) = object_section ctx0))"
proof (cases "find (\<lambda>s. contains_va s (load_address s)) (find_code_sections pe)")
  case None
  then show ?thesis by (simp add: analyse_def Let_def)
next
  case (Some cs)
  let ?ss = "find_code_sections pe"
  let ?ctx1 = "ctx0\<lparr>code_sections := ?ss, data_sections := find_data_sections pe\<rparr>"
  obtain e0 evs0 where its: "init_table_stage env cs (table_pos pe) ?ctx1 = (e0, evs0)"
    by (cases "init_table_stage env cs (table_pos pe) ?ctx1")
  note ev0 = init_table_stage_events [OF its]
  show ?thesis
  proof (cases e0)
    case (Some x)
    have "\<not> (\<forall>s p c. parse_init_table env s p c = None)"
      using its Some by (auto simp: init_table_stage_def split: option.splits if_splits)
    moreover have "analyse env pe ctx0
               = Some \<lparr>outcome = Raised x, final_context = ?ctx1, final_queue = [],
                       trace = evs0\<rparr>"
      using \<open>find _ _ = Some cs\<close> its Some by (simp add: analyse_def Let_def)
    ultimately show ?thesis using ev0 by auto
  next
    case None
    obtain e found ctx2 evs1 where
      ts: "tobject_sections ?ss False ?ctx1 = (e, found, ctx2, evs1)"
      by (cases "tobject_sections ?ss False ?ctx1") auto
    note fr = tobject_sections_frame [OF ts]
    have exn: "e = (if 2 \<le> length (accepting_sections ?ss)
                    then Some ObjectsInMoreThanOneSection else None)"
      if "list_all (\<lambda>s. find_tobject s \<noteq> Inl StreamError) ?ss"
      using tobject_sections_exn [OF ts that] by (simp add: found_count_def)
    have same: "ctx2 = ?ctx1" if "accepting_sections ?ss = []"
      using tobject_sections_none_accepted [OF ts that] by simp
    show ?thesis
    proof (cases e)
      case (Some x)
      have r: "analyse env pe ctx0
               = Some \<lparr>outcome = Raised x, final_context = ctx2, final_queue = [],
                       trace = evs0 @ evs1\<rparr>"
        using \<open>find _ _ = Some cs\<close> its None ts Some
        by (simp add: analyse_def Let_def object_stages_def)
      have "x = ObjectsInMoreThanOneSection \<and> accepting_sections ?ss \<noteq> []"
        if "list_all (\<lambda>s. find_tobject s \<noteq> Inl StreamError) ?ss"
        using exn [OF that] Some by (auto split: if_splits)
      with r ev0 fr show ?thesis by auto
    next
      case nex: None
      from tobject_sections_None [of ?ss False ?ctx1 found ctx2 evs1] ts nex
      have "found = (accepting_sections ?ss \<noteq> [])" "length (accepting_sections ?ss) \<le> 1"
        by (simp_all add: found_count_def)
      with count have acc: "accepting_sections ?ss = []" and nf: "\<not> found"
        by (cases "accepting_sections ?ss"; simp)+
      have r: "analyse env pe ctx0
               = Some \<lparr>outcome = NoTObject, final_context = ctx2, final_queue = [],
                       trace = evs0 @ evs1\<rparr>"
        using \<open>find _ _ = Some cs\<close> its None ts nex nf
        by (simp add: analyse_def Let_def object_stages_def)
      from r ev0 fr acc same [OF acc] show ?thesis by simp
    qed
  qed
qed

text \<open>
  The base-object table in two sections, and a single section without it.
\<close>

theorem tobject_count_fatal_witness:
  "(\<exists>r. analyse env_example (image_of [sec_tobject, sec_tobject2] (Some 5) 0x1000) ctx_empty
          = Some r
        \<and> length (accepting_sections
             (find_code_sections (image_of [sec_tobject, sec_tobject2] (Some 5) 0x1000))) = 2
        \<and> outcome r = Raised ObjectsInMoreThanOneSection
        \<and> list_all (\<lambda>ev. \<not> is_later_stage ev) (trace r)
        \<and> items (final_context r) = [] \<and> version (final_context r) = None)
   \<and> (\<exists>r. analyse env_example (image_of [sec_plain] (Some 5) 0x2000) ctx_empty = Some r
        \<and> accepting_sections (find_code_sections (image_of [sec_plain] (Some 5) 0x2000)) = []
        \<and> outcome r = NoTObject
        \<and> list_all (\<lambda>ev. \<not> is_later_stage ev) (trace r)
        \<and> header_length (final_context r) = None \<and> code_sections (final_context r) = [sec_plain])"
proof -
  let ?pe = "image_of [sec_tobject, sec_tobject2] (Some 5) 0x1000"
  let ?single = "image_of [sec_plain] (Some 5) 0x2000"
  have n: "length (accepting_sections (find_code_sections ?pe)) = 2" by code_simp
  have n0: "accepting_sections (find_code_sections ?single) = []" by code_simp
  have two: "length (accepting_sections (find_code_sections ?pe)) \<noteq> 1" using n by simp
  have none: "length (accepting_sections (find_code_sections ?single)) \<noteq> 1" using n0 by simp
  from tobject_count_fatal [OF two, of env_example ctx_empty] obtain r where
    r: "analyse env_example ?pe ctx_empty = Some r" "outcome r \<noteq> Completed"
       "list_all (\<lambda>ev. \<not> is_later_stage ev) (trace r)"
    by blast
  from tobject_count_fatal [OF none, of env_example ctx_empty] obtain r0 where
    r0: "analyse env_example ?single ctx_empty = Some r0" "outcome r0 \<noteq> Completed"
        "list_all (\<lambda>ev. \<not> is_later_stage ev) (trace r0)"
    by blast
  from r n have "analyse env_example ?pe ctx_empty = Some r
        \<and> length (accepting_sections (find_code_sections ?pe)) = 2
        \<and> outcome r = Raised ObjectsInMoreThanOneSection
        \<and> list_all (\<lambda>ev. \<not> is_later_stage ev) (trace r)
        \<and> items (final_context r) = [] \<and> version (final_context r) = None"
    by (auto simp: example_run_twice)
  moreover from r0 n0 have "analyse env_example ?single ctx_empty = Some r0
        \<and> accepting_sections (find_code_sections ?single) = []
        \<and> outcome r0 = NoTObject
        \<and> list_all (\<lambda>ev. \<not> is_later_stage ev) (trace r0)
        \<and> header_length (final_context r0) = None
        \<and> code_sections (final_context r0) = [sec_plain]"
    by (auto simp: example_run_no_tobject)
  ultimately show ?thesis by blast
qed

section \<open>The entry point\<close>

text \<open>
  \<^verbatim>\<open>analyse\<close> never reads the entry point: the test at line 138 is
  \<^verbatim>\<open>s.contains_va(s.load_address)\<close>, which holds for the first code section
  of positive size.
\<close>

lemma analyse_entry_point_irrelevant:
  "analyse env (pe\<lparr>entry_point := ep\<rparr>) ctx0 = analyse env pe ctx0"
  by (simp add: analyse_def Let_def find_code_sections_def find_data_sections_def
      find_sections_def cong: option.case_cong)

text \<open>
  C5 at two inputs. With the entry point \<open>0x1010\<close> in the second code
  section, the first one is chosen: \<^verbatim>\<open>parse_init_table\<close> is called with it.
  With the entry point 0 in no code section, the run completes.
\<close>

theorem code_section_ignores_entry_point:
  "entry_point (image_of [sec_plain, sec_tobject] (Some 5) 0x1010) = 0x1010
   \<and> contains_va sec_tobject 0x1010 \<and> \<not> contains_va sec_plain 0x1010
   \<and> map_option (\<lambda>r. filter is_parse_init_table (trace r))
        (analyse env_example (image_of [sec_plain, sec_tobject] (Some 5) 0x1010) ctx_empty)
      = Some [ParseInitTable sec_plain 5]
   \<and> \<not> contains_va sec_tobject 0
   \<and> map_option outcome (analyse env_example (image_of [sec_tobject] None 0) ctx_empty)
      = Some Completed"
proof -
  have a: "entry_point (image_of [sec_plain, sec_tobject] (Some 5) 0x1010) = 0x1010"
    by (simp add: image_of_def)
  have b: "contains_va sec_tobject 0x1010 \<and> \<not> contains_va sec_plain 0x1010
           \<and> \<not> contains_va sec_tobject 0"
    by (simp add: contains_va_def sec_tobject_def sec_plain_def)
  have c: "map_option outcome (analyse env_example (image_of [sec_tobject] None 0) ctx_empty)
      = Some Completed" by code_simp
  show ?thesis using a b c by (simp add: example_run_two_sections)
qed


section \<open>The section handed to the constructors\<close>










end
